theory Spec2Isabelle
  imports Main "HOL-Library.Sublist"
begin

section \<open>Python string primitives\<close>

text \<open>
  Python strings are sequences of code points. The model represents a string as a list of
  \<^typ>\<open>char\<close>, one \<^typ>\<open>char\<close> per code point, which covers the code points 0 to 255.
  On that range \<^verbatim>\<open>str.isspace\<close> and the regular-expression class \<^verbatim>\<open>\s\<close> (for
  \<^verbatim>\<open>str\<close> patterns) accept the same characters, listed in \<open>whitespace\<close>.
\<close>

definition whitespace :: "char list" where
  "whitespace = [CHR 0x09, CHR 0x0A, CHR 0x0B, CHR 0x0C, CHR 0x0D, CHR 0x1C, CHR 0x1D,
                 CHR 0x1E, CHR 0x1F, CHR 0x20, CHR 0x85, CHR 0xA0]"

definition isspace :: "char \<Rightarrow> bool" where
  "isspace c \<longleftrightarrow> c \<in> set whitespace"

text \<open>\<^verbatim>\<open>c.islower()\<close> for a one-character string, on the code points 0 to 255.\<close>

definition islower :: "char \<Rightarrow> bool" where
  "islower c \<longleftrightarrow>
     (let n = (of_char c :: nat)
      in (97 \<le> n \<and> n \<le> 122) \<or> n = 170 \<or> n = 181 \<or> n = 186 \<or>
         (223 \<le> n \<and> n \<le> 246) \<or> (248 \<le> n \<and> n \<le> 255))"

definition lstrip :: "string \<Rightarrow> string" where
  "lstrip s = dropWhile isspace s"

definition rstrip :: "string \<Rightarrow> string" where
  "rstrip s = rev (dropWhile isspace (rev s))"

text \<open>\<^verbatim>\<open>s.strip()\<close>\<close>

definition strip :: "string \<Rightarrow> string" where
  "strip s = rstrip (lstrip s)"

text \<open>\<^verbatim>\<open>s.endswith(suffix)\<close>\<close>

definition endswith :: "string \<Rightarrow> string \<Rightarrow> bool" where
  "endswith s suf \<longleftrightarrow> suffix suf s"

text \<open>\<^verbatim>\<open>s.split()\<close>: the maximal runs of non-whitespace characters.\<close>

function split_ws :: "string \<Rightarrow> string list" where
  "split_ws s =
     (case dropWhile isspace s of
        [] \<Rightarrow> []
      | c # cs \<Rightarrow> (c # takeWhile (\<lambda>d. \<not> isspace d) cs) # split_ws (dropWhile (\<lambda>d. \<not> isspace d) cs))"
  by pat_completeness auto
termination
proof (relation "measure length", goal_cases)
  case 1
  show ?case by simp
next
  case (2 s c cs)
  have "length (dropWhile (\<lambda>d. \<not> isspace d) cs) \<le> length cs"
    by (rule length_dropWhile_le)
  moreover have "length (dropWhile isspace s) \<le> length s"
    by (rule length_dropWhile_le)
  ultimately show ?case using 2 by simp
qed

declare split_ws.simps [simp del]

section \<open>Paragraph splitter\<close>

text \<open>
  \<^verbatim>\<open>re.split(r'\n\s*\n', text)\<close>. The pattern matches at a position holding a newline when
  the maximal whitespace run after that newline contains another newline; the greedy
  \<^verbatim>\<open>\s*\<close> backtracks to the last newline of the run, where the match ends.
  \<open>sep_rest s\<close> is the text after a match that starts at the head of \<open>s\<close>.
\<close>

definition sep_rest :: "string \<Rightarrow> string option" where
  "sep_rest s =
     (case s of
        [] \<Rightarrow> None
      | c # cs \<Rightarrow>
          if c = CHR 0x0A \<and> CHR 0x0A \<in> set (takeWhile isspace cs)
          then Some (rev (takeWhile (\<lambda>d. d \<noteq> CHR 0x0A) (rev (takeWhile isspace cs)))
                     @ dropWhile isspace cs)
          else None)"

lemma sep_rest_shorter: "sep_rest s = Some r \<Longrightarrow> length r < length s"
proof -
  assume a: "sep_rest s = Some r"
  then obtain c cs where s: "s = c # cs"
    by (cases s) (auto simp: sep_rest_def)
  from a s have r: "r = rev (takeWhile (\<lambda>d. d \<noteq> CHR 0x0A) (rev (takeWhile isspace cs)))
                     @ dropWhile isspace cs"
    by (auto simp: sep_rest_def split: if_splits)
  have "length (takeWhile (\<lambda>d. d \<noteq> CHR 0x0A) (rev (takeWhile isspace cs)))
          \<le> length (takeWhile isspace cs)"
    using length_takeWhile_le [of "\<lambda>d. d \<noteq> CHR 0x0A" "rev (takeWhile isspace cs)"] by simp
  moreover have "length (takeWhile isspace cs) + length (dropWhile isspace cs) = length cs"
    by (metis length_append takeWhile_dropWhile_id)
  ultimately show ?thesis using r s by simp
qed

function re_split_from :: "string \<Rightarrow> string \<Rightarrow> string list" where
  "re_split_from [] piece = [piece]"
| "re_split_from (c # cs) piece =
     (case sep_rest (c # cs) of
        Some rest \<Rightarrow> piece # re_split_from rest []
      | None \<Rightarrow> re_split_from cs (piece @ [c]))"
  by pat_completeness auto
termination
  by (relation "measure (\<lambda>(s, piece). length s)") (auto dest: sep_rest_shorter)

definition re_split :: "string \<Rightarrow> string list" where
  "re_split s = re_split_from s []"

text \<open>\<^verbatim>\<open>re.sub(r'\s+', ' ', para)\<close>: every maximal whitespace run becomes one space.\<close>

function sub_ws :: "string \<Rightarrow> string" where
  "sub_ws [] = []"
| "sub_ws (c # cs) =
     (if isspace c then CHR '' '' # sub_ws (dropWhile isspace cs) else c # sub_ws cs)"
  by pat_completeness auto
termination
  by (relation "measure length") (auto simp: less_Suc_eq_le length_dropWhile_le)

text \<open>The loop of \<^verbatim>\<open>_split_by_paragraphs\<close> over the candidate paragraphs.\<close>

fun paragraphs_loop :: "string list \<Rightarrow> string list \<Rightarrow> string list" where
  "paragraphs_loop [] cleaned_paragraphs = cleaned_paragraphs"
| "paragraphs_loop (para # paragraphs) cleaned_paragraphs =
     (let para = strip para
      in if para \<noteq> [] \<and> 20 < length para
         then paragraphs_loop paragraphs (cleaned_paragraphs @ [sub_ws para])
         else paragraphs_loop paragraphs cleaned_paragraphs)"

definition split_by_paragraphs :: "string \<Rightarrow> string list" where
  "split_by_paragraphs text = paragraphs_loop (re_split (strip text)) []"

section \<open>Sentence segmenter\<close>

datatype error = IndexError

text \<open>\<^verbatim>\<open>xs[i]\<close> for an index that is not negative.\<close>

definition getitem :: "'a list \<Rightarrow> nat \<Rightarrow> error + 'a" where
  "getitem xs i = (if i < length xs then Inr (xs ! i) else Inl IndexError)"

text \<open>The set \<^verbatim>\<open>self.abbreviations\<close>, the same for every instance.\<close>

definition abbreviations :: "string list" where
  "abbreviations =
     [''Dr.'', ''Mr.'', ''Mrs.'', ''Ms.'', ''Prof.'', ''vs.'', ''etc.'',
      ''i.e.'', ''e.g.'', ''cf.'', ''al.'', ''Inc.'', ''Ltd.'', ''Corp.'',
      ''St.'', ''Ave.'', ''Blvd.'', ''Dept.'', ''Fig.'', ''Vol.'', ''No.'']"

text \<open>
  The body of \<^verbatim>\<open>if i < len(sentences) - 1:\<close> in \<^verbatim>\<open>_split_into_sentences\<close>. It returns the
  values of \<^verbatim>\<open>current_sentence\<close> and \<^verbatim>\<open>i\<close> after the block.
\<close>

definition merge_abbreviation :: "string list \<Rightarrow> nat \<Rightarrow> string \<Rightarrow> error + (string \<times> nat)" where
  "merge_abbreviation sentences i current_sentence =
     (let words = split_ws current_sentence
      in if words \<noteq> [] \<and>
            list_ex (\<lambda>abbrev. endswith (rstrip current_sentence) abbrev) abbreviations
         then (case getitem sentences (i + 1) of
                 Inl e \<Rightarrow> Inl e
               | Inr s \<Rightarrow>
                   (let next_sentence = strip s
                    in if next_sentence \<noteq> []
                       then (case getitem next_sentence 0 of
                               Inl e \<Rightarrow> Inl e
                             | Inr c \<Rightarrow>
                                 if islower c
                                 then Inr (current_sentence @ '' '' @ next_sentence, i + 1)
                                 else Inr (current_sentence, i))
                       else Inr (current_sentence, i)))
         else Inr (current_sentence, i))"

lemma merge_abbreviation_index:
  "merge_abbreviation sentences i c = Inr (c', j) \<Longrightarrow> j = i \<or> j = i + 1"
  by (auto simp: merge_abbreviation_def Let_def split: if_splits sum.splits)

text \<open>The \<^verbatim>\<open>while i < len(sentences)\<close> loop.\<close>

function sentences_loop :: "string list \<Rightarrow> nat \<Rightarrow> string list \<Rightarrow> error + string list" where
  "sentences_loop sentences i processed_sentences =
     (if i < length sentences
      then (case getitem sentences i of
              Inl e \<Rightarrow> Inl e
            | Inr current_sentence \<Rightarrow>
                (case (if int i < int (length sentences) - 1
                       then merge_abbreviation sentences i current_sentence
                       else Inr (current_sentence, i)) of
                   Inl e \<Rightarrow> Inl e
                 | Inr (current_sentence, j) \<Rightarrow>
                     sentences_loop sentences (j + 1)
                       (processed_sentences @ [strip current_sentence])))
      else Inr processed_sentences)"
  by pat_completeness auto
termination
  by (relation "measure (\<lambda>(sentences, i, processed). length sentences - i)")
     (auto split: if_splits dest: merge_abbreviation_index)

declare sentences_loop.simps [simp del]

text \<open>
  \<^verbatim>\<open>_split_into_sentences\<close>. The base tokenizer \<^verbatim>\<open>nltk.sent_tokenize\<close> belongs to an
  external library and is a parameter of the model.
\<close>

definition split_into_sentences :: "(string \<Rightarrow> string list) \<Rightarrow> string \<Rightarrow> error + string list" where
  "split_into_sentences sent_tokenize text =
     (case sentences_loop (sent_tokenize text) 0 [] of
        Inl e \<Rightarrow> Inl e
      | Inr processed_sentences \<Rightarrow> Inr (filter (\<lambda>s. s \<noteq> []) processed_sentences))"

section \<open>Chunk assembler\<close>

record logical_text_splitter =
  chunk_size :: int
  chunk_overlap :: int

text \<open>
  The loop \<^verbatim>\<open>for prev_sentence in reversed(current_sentences)\<close>; its list argument is the
  reversed list, \<open>limit\<close> is \<^verbatim>\<open>self.chunk_overlap\<close>.
\<close>

fun overlap_loop :: "int \<Rightarrow> string list \<Rightarrow> string \<Rightarrow> int \<Rightarrow> string" where
  "overlap_loop limit [] overlap_text overlap_chars = overlap_text"
| "overlap_loop limit (prev_sentence # earlier) overlap_text overlap_chars =
     (if overlap_chars + int (length prev_sentence) \<le> limit
      then overlap_loop limit earlier
             (if overlap_text \<noteq> [] then prev_sentence @ '' '' @ overlap_text else prev_sentence)
             (overlap_chars + int (length prev_sentence))
      else overlap_text)"

text \<open>
  One iteration of the loop \<^verbatim>\<open>for sentence in sentences\<close> of \<^verbatim>\<open>_chunk_paragraph\<close>, on
  the loop state \<^verbatim>\<open>(chunks, current_chunk, current_sentences)\<close>.
\<close>

definition chunk_step ::
  "logical_text_splitter \<Rightarrow> string \<Rightarrow> string list \<times> string \<times> string list
     \<Rightarrow> string list \<times> string \<times> string list" where
  "chunk_step self sentence state =
     (case state of (chunks, current_chunk, current_sentences) \<Rightarrow>
        (let potential_chunk =
               (if current_chunk \<noteq> [] then current_chunk @ '' '' @ sentence else sentence)
         in if chunk_size self < int (length potential_chunk) \<and> current_chunk \<noteq> []
            then (if 0 < chunk_overlap self \<and> current_sentences \<noteq> []
                  then (let overlap_text =
                              overlap_loop (chunk_overlap self) (rev current_sentences) [] 0
                        in (chunks @ [strip current_chunk],
                            (if overlap_text \<noteq> [] then overlap_text @ '' '' @ sentence
                             else sentence),
                            (if overlap_text = [] then [sentence]
                             else split_ws overlap_text @ [sentence])))
                  else (chunks @ [strip current_chunk], sentence, [sentence]))
            else (chunks, potential_chunk, current_sentences @ [sentence])))"

fun chunk_loop ::
  "logical_text_splitter \<Rightarrow> string list \<Rightarrow> string list \<times> string \<times> string list
     \<Rightarrow> string list \<times> string \<times> string list" where
  "chunk_loop self [] state = state"
| "chunk_loop self (sentence # sentences) state =
     chunk_loop self sentences (chunk_step self sentence state)"

text \<open>\<^verbatim>\<open>_chunk_paragraph\<close>\<close>

definition chunk_paragraph ::
  "(string \<Rightarrow> string list) \<Rightarrow> logical_text_splitter \<Rightarrow> string \<Rightarrow> error + string list" where
  "chunk_paragraph sent_tokenize self paragraph =
     (if int (length paragraph) \<le> chunk_size self then Inr [paragraph]
      else (case split_into_sentences sent_tokenize paragraph of
              Inl e \<Rightarrow> Inl e
            | Inr sentences \<Rightarrow>
                (case chunk_loop self sentences ([], [], []) of
                   (chunks, current_chunk, current_sentences) \<Rightarrow>
                     Inr (if current_chunk \<noteq> [] then chunks @ [strip current_chunk]
                          else chunks))))"

section \<open>The pipeline\<close>

text \<open>The loop \<^verbatim>\<open>for paragraph in paragraphs\<close> of \<^verbatim>\<open>split_text\<close>.\<close>

fun split_text_loop ::
  "(string \<Rightarrow> string list) \<Rightarrow> logical_text_splitter \<Rightarrow> string list \<Rightarrow> string list
     \<Rightarrow> error + string list" where
  "split_text_loop sent_tokenize self [] all_chunks = Inr all_chunks"
| "split_text_loop sent_tokenize self (paragraph # paragraphs) all_chunks =
     (case chunk_paragraph sent_tokenize self paragraph of
        Inl e \<Rightarrow> Inl e
      | Inr paragraph_chunks \<Rightarrow>
          split_text_loop sent_tokenize self paragraphs (all_chunks @ paragraph_chunks))"

definition split_text ::
  "(string \<Rightarrow> string list) \<Rightarrow> logical_text_splitter \<Rightarrow> string \<Rightarrow> error + string list" where
  "split_text sent_tokenize self text =
     split_text_loop sent_tokenize self (split_by_paragraphs text) []"

section \<open>A stand-in for the base tokenizer\<close>

text \<open>
  Modelled from the spec: the base sentence tokenizer is \<^verbatim>\<open>nltk.sent_tokenize\<close>, an external
  library function absent from the repository. The specification describes it as
  end-of-sentence punctuation followed by whitespace and a capital letter. \<open>punct_tokenize\<close>
  breaks after \<^verbatim>\<open>.\<close>, \<^verbatim>\<open>!\<close> or \<^verbatim>\<open>?\<close> when a single space and a letter A to Z follow, and removes
  that space. It instantiates the tokenizer parameter at concrete inputs only; every
  general statement below holds for an arbitrary tokenizer.
\<close>

definition isupper_ascii :: "char \<Rightarrow> bool" where
  "isupper_ascii c \<longleftrightarrow> 65 \<le> (of_char c :: nat) \<and> (of_char c :: nat) \<le> 90"

definition sentence_break :: "char \<Rightarrow> string \<Rightarrow> bool" where
  "sentence_break c rest \<longleftrightarrow>
     (c = CHR ''.'' \<or> c = CHR ''!'' \<or> c = CHR ''?'') \<and>
     (case rest of d # e # _ \<Rightarrow> d = CHR '' '' \<and> isupper_ascii e | _ \<Rightarrow> False)"

function punct_tokenize_from :: "string \<Rightarrow> string \<Rightarrow> string list" where
  "punct_tokenize_from [] sentence = (if sentence = [] then [] else [sentence])"
| "punct_tokenize_from (c # rest) sentence =
     (if sentence_break c rest
      then (sentence @ [c]) # punct_tokenize_from (tl rest) []
      else punct_tokenize_from rest (sentence @ [c]))"
  by pat_completeness auto
termination
  by (relation "measure (\<lambda>(text, sentence). length text)") simp_all

definition punct_tokenize :: "string \<Rightarrow> string list" where
  "punct_tokenize text = punct_tokenize_from text []"

section \<open>Notions used to state the properties\<close>

text \<open>A string that is not empty and neither starts nor ends with whitespace.\<close>

definition trimmed :: "string \<Rightarrow> bool" where
  "trimmed s \<longleftrightarrow> s \<noteq> [] \<and> \<not> isspace (hd s) \<and> \<not> isspace (last s)"

text \<open>\<^verbatim>\<open>" ".join(xs)\<close>\<close>

fun join_sp :: "string list \<Rightarrow> string" where
  "join_sp [] = []"
| "join_sp [s] = s"
| "join_sp (s # t # rest) = s @ '' '' @ join_sp (t # rest)"

text \<open>\<^verbatim>\<open>"\n\n".join(xs)\<close>: paragraphs rejoined with blank lines.\<close>

fun join_blank :: "string list \<Rightarrow> string" where
  "join_blank [] = []"
| "join_blank [p] = p"
| "join_blank (p # q # rest) = p @ [CHR 0x0A, CHR 0x0A] @ join_blank (q # rest)"

text \<open>
  The merge rule of the sentence segmenter in the words of the specification, as a
  recursion over the base tokenization: the trailing token of a sentence is the last
  element of \<^verbatim>\<open>sentence.split()\<close>; it matches when a known abbreviation is a suffix of
  it; the next sentence starts in lowercase when the first character of its trimmed
  form is lowercase. The last sentence has no successor and is never merged.
\<close>

definition starts_lowercase :: "string \<Rightarrow> bool" where
  "starts_lowercase t \<longleftrightarrow> (case strip t of [] \<Rightarrow> False | c # _ \<Rightarrow> islower c)"

definition ends_with_abbreviation :: "string \<Rightarrow> bool" where
  "ends_with_abbreviation s \<longleftrightarrow>
     split_ws s \<noteq> [] \<and> list_ex (\<lambda>abbrev. suffix abbrev (last (split_ws s))) abbreviations"

fun merge_pass :: "string list \<Rightarrow> string list" where
  "merge_pass [] = []"
| "merge_pass [s] = [strip s]"
| "merge_pass (s # t # rest) =
     (if ends_with_abbreviation s \<and> starts_lowercase t
      then strip (s @ '' '' @ strip t) # merge_pass rest
      else strip s # merge_pass (t # rest))"

text \<open>
  A chunk is described by two parts: the overlap text that seeded its accumulator (empty
  when there is none) and the sentences appended to the accumulator after that, in order.
\<close>

type_synonym part = "string \<times> string list"

text \<open>The chunk text of a part: the seed and the sentences, joined by single spaces.\<close>

definition render :: "part \<Rightarrow> string" where
  "render pt =
     (if fst pt = [] then join_sp (snd pt) else fst pt @ '' '' @ join_sp (snd pt))"

text \<open>A chunk without its leading overlap and the space that follows it.\<close>

definition remove_overlap :: "part \<Rightarrow> string \<Rightarrow> string" where
  "remove_overlap pt chunk = (if fst pt = [] then chunk else drop (length (fst pt) + 1) chunk)"

text \<open>
  The entries taken by the reverse walk over an accumulator list: the longest prefix of
  the reversed list whose running character count stays within the limit.
\<close>

fun fitting :: "int \<Rightarrow> string list \<Rightarrow> int \<Rightarrow> string list" where
  "fitting limit [] chars = []"
| "fitting limit (p # ps) chars =
     (if chars + int (length p) \<le> limit
      then p # fitting limit ps (chars + int (length p)) else [])"

text \<open>
  The list \<^verbatim>\<open>current_sentences\<close> of a part consists of the words of its seed followed by its
  sentences. \<open>overlap_entries\<close> are the entries of that list which the walk takes, in
  their original order; \<open>next_seed\<close> is the overlap text the code builds from that list.
\<close>

definition overlap_entries :: "logical_text_splitter \<Rightarrow> part \<Rightarrow> string list" where
  "overlap_entries self pt =
     (if 0 < chunk_overlap self
      then rev (fitting (chunk_overlap self) (rev (split_ws (fst pt) @ snd pt)) 0) else [])"

definition next_seed :: "logical_text_splitter \<Rightarrow> part \<Rightarrow> string" where
  "next_seed self pt =
     (if 0 < chunk_overlap self
      then overlap_loop (chunk_overlap self) (rev (split_ws (fst pt) @ snd pt)) [] 0 else [])"

text \<open>
  The parts of the chunks of a sentence sequence: a part is closed when it holds a
  sentence and appending the next sentence would exceed \<^verbatim>\<open>chunk_size\<close>; the next part is
  seeded with the overlap of the closed one.
\<close>

fun group_loop :: "logical_text_splitter \<Rightarrow> string list \<Rightarrow> string \<Rightarrow> string list \<Rightarrow> part list" where
  "group_loop self [] seed grp = (if grp = [] then [] else [(seed, grp)])"
| "group_loop self (s # ss) seed grp =
     (if grp \<noteq> [] \<and> chunk_size self < int (length (render (seed, grp)) + 1 + length s)
      then (seed, grp) # group_loop self ss (next_seed self (seed, grp)) [s]
      else group_loop self ss seed (grp @ [s]))"

text \<open>
  The parts of the chunks of a paragraph. On the fast path the paragraph is the only
  unit of its single chunk.
\<close>

definition paragraph_parts ::
  "(string \<Rightarrow> string list) \<Rightarrow> logical_text_splitter \<Rightarrow> string \<Rightarrow> part list" where
  "paragraph_parts sent_tokenize self paragraph =
     (if int (length paragraph) \<le> chunk_size self then [([], [paragraph])]
      else group_loop self (projr (split_into_sentences sent_tokenize paragraph)) [] [])"


section \<open>Trimming and totality\<close>

lemma rstrip_prefix: "s = rstrip s @ rev (takeWhile isspace (rev s))"
proof -
  have "rev (dropWhile isspace (rev s)) @ rev (takeWhile isspace (rev s))
          = rev (takeWhile isspace (rev s) @ dropWhile isspace (rev s))"
    by (simp only: rev_append)
  also have "\<dots> = s" by simp
  finally show ?thesis by (simp add: rstrip_def)
qed

lemma rstrip_last: "rstrip s \<noteq> [] \<Longrightarrow> \<not> isspace (last (rstrip s))"
  unfolding rstrip_def
  by (metis hd_dropWhile last_rev rev_is_Nil_conv)

lemma rstrip_hd: "rstrip s \<noteq> [] \<Longrightarrow> hd (rstrip s) = hd s"
  by (metis hd_append2 rstrip_prefix)

lemma lstrip_hd: "lstrip s \<noteq> [] \<Longrightarrow> \<not> isspace (hd (lstrip s))"
  unfolding lstrip_def by (rule hd_dropWhile)

lemma strip_trimmed: "strip s = [] \<or> trimmed (strip s)"
proof (cases "strip s = []")
  case True
  then show ?thesis by simp
next
  case False
  then have ne: "rstrip (lstrip s) \<noteq> []" by (simp add: strip_def)
  then have "lstrip s \<noteq> []" by (auto simp: rstrip_def)
  then have "\<not> isspace (hd (lstrip s))" by (rule lstrip_hd)
  with ne have "\<not> isspace (hd (rstrip (lstrip s)))" by (simp add: rstrip_hd)
  moreover from ne have "\<not> isspace (last (rstrip (lstrip s)))" by (rule rstrip_last)
  ultimately show ?thesis using ne by (simp add: trimmed_def strip_def)
qed

lemma strip_id: "trimmed s \<Longrightarrow> strip s = s"
proof -
  assume t: "trimmed s"
  then have l: "lstrip s = s"
    by (simp add: trimmed_def lstrip_def dropWhile_eq_self_iff)
  from t have "dropWhile isspace (rev s) = rev s"
    by (simp add: trimmed_def dropWhile_eq_self_iff hd_rev)
  then have "rstrip s = s" by (simp add: rstrip_def)
  with l show ?thesis by (simp add: strip_def)
qed

lemma strip_Nil [simp]: "strip [] = []"
  by (simp add: strip_def lstrip_def rstrip_def)

lemma strip_all_space: "\<forall>c\<in>set s. isspace c \<Longrightarrow> strip s = []"
proof -
  assume "\<forall>c\<in>set s. isspace c"
  then show ?thesis
    by (auto simp: strip_def lstrip_def rstrip_def dest: set_dropWhileD)
qed

lemma sentences_loop_total:
  "\<forall>x\<in>set acc. x = [] \<or> trimmed x \<Longrightarrow>
   \<exists>r. sentences_loop sentences i acc = Inr r \<and> (\<forall>x\<in>set r. x = [] \<or> trimmed x)"
proof (induction sentences i acc rule: sentences_loop.induct)
  case (1 sentences i acc)
  show ?case
  proof (cases "i < length sentences")
    case False
    then show ?thesis using "1.prems" by (simp add: sentences_loop.simps)
  next
    case True
    then have g: "getitem sentences i = Inr (sentences ! i)" by (simp add: getitem_def)
    define step where "step = (if int i < int (length sentences) - 1
                       then merge_abbreviation sentences i (sentences ! i)
                       else Inr (sentences ! i, i))"
    have "\<exists>c j. step = Inr (c, j)"
    proof (cases "int i < int (length sentences) - 1")
      case False
      then show ?thesis by (simp add: step_def)
    next
      case True
      then have "getitem sentences (i + 1) = Inr (sentences ! (i + 1))"
        by (simp add: getitem_def)
      then show ?thesis using True
        by (auto simp: step_def merge_abbreviation_def Let_def getitem_def)
    qed
    then obtain c j where s: "step = Inr (c, j)" by blast
    have acc': "\<forall>x\<in>set (acc @ [strip c]). x = [] \<or> trimmed x"
      using "1.prems" strip_trimmed [of c] by auto
    have "\<exists>r. sentences_loop sentences (j + 1) (acc @ [strip c]) = Inr r \<and> (\<forall>x\<in>set r. x = [] \<or> trimmed x)"
      using "1.IH" [OF True g s [unfolded step_def] refl acc'] .
    moreover have "sentences_loop sentences i acc = sentences_loop sentences (j + 1) (acc @ [strip c])"
      using True g s [unfolded step_def]
      by (subst sentences_loop.simps) simp
    ultimately show ?thesis by simp
  qed
qed

lemma split_into_sentences_total:
  "\<exists>ss. split_into_sentences tok text = Inr ss \<and> (\<forall>s\<in>set ss. trimmed s)"
proof -
  obtain r where r: "sentences_loop (tok text) 0 [] = Inr r" "\<forall>x\<in>set r. x = [] \<or> trimmed x"
    using sentences_loop_total [of "[]" "tok text" 0] by auto
  then show ?thesis by (auto simp: split_into_sentences_def)
qed

lemma chunk_paragraph_total: "\<exists>chunks. chunk_paragraph tok self p = Inr chunks"
proof -
  obtain ss where "split_into_sentences tok p = Inr ss"
    using split_into_sentences_total by blast
  then show ?thesis
    by (simp add: chunk_paragraph_def split: prod.splits)
qed

lemma split_text_loop_concat:
  "split_text_loop tok self ps acc =
     Inr (acc @ concat (map (\<lambda>p. projr (chunk_paragraph tok self p)) ps))"
proof (induction ps arbitrary: acc)
  case Nil
  show ?case by simp
next
  case (Cons p ps)
  obtain chunks where c: "chunk_paragraph tok self p = Inr chunks"
    using chunk_paragraph_total by blast
  show ?case by (simp add: c Cons.IH)
qed

lemma re_split_Nil: "re_split [] = [[]]"
  by (simp add: re_split_def)

lemma split_by_paragraphs_blank: "\<forall>c\<in>set text. isspace c \<Longrightarrow> split_by_paragraphs text = []"
  by (simp add: split_by_paragraphs_def strip_all_space re_split_Nil)


section \<open>The paragraph splitter: candidates, normalisation, re-splitting\<close>

lemma paragraphs_loop_filter:
  "paragraphs_loop ps acc = acc @ map sub_ws (filter (\<lambda>para. 20 < length para) (map strip ps))"
  by (induction ps arbitrary: acc) (auto simp: Let_def)

lemma sub_ws_Nil_iff [simp]: "sub_ws s = [] \<longleftrightarrow> s = []"
  by (cases s) auto

lemma sub_ws_hd: "s \<noteq> [] \<Longrightarrow> \<not> isspace (hd s) \<Longrightarrow> hd (sub_ws s) = hd s"
  by (cases s) auto

lemma sub_ws_last: "s \<noteq> [] \<Longrightarrow> \<not> isspace (last s) \<Longrightarrow> \<not> isspace (last (sub_ws s))"
proof (induction s rule: sub_ws.induct)
  case 1
  then show ?case by simp
next
  case (2 c cs)
  show ?case
  proof (cases "isspace c")
    case True
    with "2.prems" have cs: "cs \<noteq> []" by auto
    with "2.prems" have l: "\<not> isspace (last cs)" by simp
    have d: "dropWhile isspace cs \<noteq> []"
      using cs l by (metis dropWhile_eq_Nil_conv last_in_set)
    have "last (dropWhile isspace cs) = last cs"
      using d by (metis last_appendR takeWhile_dropWhile_id)
    define r where "r = dropWhile isspace cs"
    with "2.IH"(1) [OF True d] l \<open>last (dropWhile isspace cs) = last cs\<close>
    have a: "\<not> isspace (last (sub_ws r))" by simp
    have b: "sub_ws r \<noteq> []" using d by (simp add: r_def del: dropWhile_eq_Nil_conv)
    from a b have "\<not> isspace (last (CHR '' '' # sub_ws r))" by simp
    moreover have "sub_ws (c # cs) = CHR '' '' # sub_ws r" using True by (simp add: r_def)
    ultimately show ?thesis by metis
  next
    case False
    show ?thesis
    proof (cases "cs = []")
      case True
      with False show ?thesis by simp
    next
      case ne: False
      with "2.prems" have "\<not> isspace (last cs)" by simp
      with "2.IH"(2) [OF False ne] ne False show ?thesis by simp
    qed
  qed
qed

lemma sub_ws_space: "c \<in> set (sub_ws s) \<Longrightarrow> isspace c \<Longrightarrow> c = CHR '' ''"
proof (induction s rule: sub_ws.induct)
  case 1
  then show ?case by simp
next
  case (2 d ds)
  then show ?case by (cases "isspace d") auto
qed

lemma sub_ws_idem: "sub_ws (sub_ws s) = sub_ws s"
proof (induction s rule: sub_ws.induct)
  case 1
  show ?case by simp
next
  case (2 c cs)
  show ?case
  proof (cases "isspace c")
    case True
    define r where "r = dropWhile isspace cs"
    have sp: "isspace (CHR '' '')" by (simp add: isspace_def whitespace_def)
    have "dropWhile isspace (sub_ws r) = sub_ws r"
    proof (cases "r = []")
      case True
      then show ?thesis by simp
    next
      case False
      then have "\<not> isspace (hd r)" unfolding r_def by (rule hd_dropWhile)
      with False have "\<not> isspace (hd (sub_ws r))" by (simp add: sub_ws_hd)
      then show ?thesis by (simp add: dropWhile_eq_self_iff)
    qed
    moreover have "sub_ws (sub_ws r) = sub_ws r"
      using "2.IH"(1) [OF True] by (simp only: r_def)
    ultimately have "sub_ws (CHR '' '' # sub_ws r) = CHR '' '' # sub_ws r"
      using sp by simp
    moreover have "sub_ws (c # cs) = CHR '' '' # sub_ws r" using True by (simp add: r_def)
    ultimately show ?thesis by metis
  next
    case False
    with "2.IH"(2) [OF False] show ?thesis by simp
  qed
qed

lemma sub_ws_trimmed: "trimmed s \<Longrightarrow> trimmed (sub_ws s)"
  by (simp add: trimmed_def sub_ws_hd sub_ws_last)

lemma isspace_newline: "isspace (CHR 0x0A)"
  by (simp add: isspace_def whitespace_def)

lemma sep_rest_other: "c \<noteq> CHR 0x0A \<Longrightarrow> sep_rest (c # cs) = None"
  by (simp add: sep_rest_def)

lemma re_split_from_append:
  "CHR 0x0A \<notin> set p \<Longrightarrow> re_split_from (p @ r) acc = re_split_from r (acc @ p)"
proof (induction p arbitrary: acc)
  case Nil
  show ?case by simp
next
  case (Cons c p)
  then have "sep_rest (c # p @ r) = None" by (intro sep_rest_other) auto
  with Cons show ?case by simp
qed

lemma sep_rest_blank:
  "q \<noteq> [] \<Longrightarrow> \<not> isspace (hd q) \<Longrightarrow> sep_rest (CHR 0x0A # CHR 0x0A # q) = Some q"
proof -
  assume q: "q \<noteq> []" "\<not> isspace (hd q)"
  then obtain d ds where qd: "q = d # ds" "\<not> isspace d" by (cases q) auto
  then show ?thesis by (simp add: sep_rest_def isspace_newline)
qed

lemma join_blank_Cons:
  "join_blank (p # ps) = (if ps = [] then p else p @ [CHR 0x0A, CHR 0x0A] @ join_blank ps)"
  by (cases ps) simp_all

lemma join_blank_trimmed:
  "ps \<noteq> [] \<Longrightarrow> \<forall>p\<in>set ps. trimmed p \<Longrightarrow> trimmed (join_blank ps)"
proof (induction ps rule: join_blank.induct)
  case 1
  then show ?case by simp
next
  case (2 p)
  then show ?case by simp
next
  case (3 p q rest)
  then have "trimmed (join_blank (q # rest))" "trimmed p" by simp_all
  then show ?case by (simp add: trimmed_def)
qed

lemma re_split_from_join_blank:
  "\<forall>q\<in>set (p # ps). trimmed q \<and> CHR 0x0A \<notin> set q \<Longrightarrow>
   re_split_from (join_blank (p # ps)) acc = (acc @ p) # ps"
proof (induction ps arbitrary: p acc)
  case Nil
  then have "re_split_from (p @ []) acc = re_split_from [] (acc @ p)"
    by (intro re_split_from_append) simp
  then show ?case by simp
next
  case (Cons q ps)
  have t: "trimmed (join_blank (q # ps))"
    using Cons.prems by (intro join_blank_trimmed) simp_all
  then have s: "sep_rest (CHR 0x0A # CHR 0x0A # join_blank (q # ps)) = Some (join_blank (q # ps))"
    by (intro sep_rest_blank) (simp_all add: trimmed_def)
  have "re_split_from (p @ (CHR 0x0A # CHR 0x0A # join_blank (q # ps))) acc
          = re_split_from (CHR 0x0A # CHR 0x0A # join_blank (q # ps)) (acc @ p)"
    using Cons.prems by (intro re_split_from_append) simp
  also have "\<dots> = (acc @ p) # re_split_from (join_blank (q # ps)) []"
    using s by simp
  also have "re_split_from (join_blank (q # ps)) [] = ([] @ q) # ps"
    using Cons.prems by (intro Cons.IH) simp
  finally show ?case by simp
qed

lemma split_by_paragraphs_normal:
  assumes "p \<in> set (split_by_paragraphs text)"
  shows "trimmed p \<and> sub_ws p = p \<and> CHR 0x0A \<notin> set p"
proof -
  from assms obtain c where p: "p = sub_ws (strip c)" and len: "20 < length (strip c)"
    by (auto simp: split_by_paragraphs_def paragraphs_loop_filter)
  from len have "strip c \<noteq> []" by auto
  with strip_trimmed [of c] have "trimmed (strip c)" by simp
  then have "trimmed p" unfolding p by (rule sub_ws_trimmed)
  moreover have "sub_ws p = p" unfolding p by (rule sub_ws_idem)
  moreover have "CHR 0x0A \<notin> set p"
  proof
    assume "CHR 0x0A \<in> set p"
    then have "CHR 0x0A = CHR '' ''"
      unfolding p using isspace_newline by (rule sub_ws_space)
    then show False by simp
  qed
  ultimately show ?thesis by simp
qed

lemma split_by_paragraphs_join_blank:
  assumes "\<forall>p\<in>set ps. trimmed p \<and> sub_ws p = p \<and> CHR 0x0A \<notin> set p"
  shows "split_by_paragraphs (join_blank ps) = filter (\<lambda>p. 20 < length p) ps"
proof (cases ps)
  case Nil
  then show ?thesis by (simp add: split_by_paragraphs_def re_split_def)
next
  case (Cons p ps')
  have "trimmed (join_blank ps)" using assms Cons by (intro join_blank_trimmed) simp_all
  then have "strip (join_blank ps) = join_blank ps" by (rule strip_id)
  moreover have "re_split (join_blank ps) = ps"
    unfolding re_split_def Cons using assms Cons
    by (subst re_split_from_join_blank) simp_all
  moreover have "map strip ps = ps"
    using assms by (intro map_idI) (simp add: strip_id)
  moreover have "map sub_ws (filter (\<lambda>p. 20 < length p) ps) = filter (\<lambda>p. 20 < length p) ps"
    using assms by (intro map_idI) simp
  ultimately show ?thesis
    by (simp add: split_by_paragraphs_def paragraphs_loop_filter)
qed


section \<open>The sentence loop and the merge rule\<close>

lemma rstrip_append_spaces: "\<forall>c\<in>set r. isspace c \<Longrightarrow> rstrip (x @ r) = rstrip x"
  by (simp add: rstrip_def dropWhile_append)

lemma rstrip_append_keep: "rstrip r \<noteq> [] \<Longrightarrow> rstrip (x @ r) = x @ rstrip r"
proof -
  assume "rstrip r \<noteq> []"
  then have "dropWhile isspace (rev r) \<noteq> []" by (simp add: rstrip_def del: dropWhile_eq_Nil_conv)
  then obtain c where "c \<in> set (rev r)" "\<not> isspace c"
    by (auto simp: dropWhile_eq_Nil_conv)
  then have "dropWhile isspace (rev r @ rev x) = dropWhile isspace (rev r) @ rev x"
    by (rule dropWhile_append1)
  then show ?thesis by (simp add: rstrip_def)
qed

lemma rstrip_id: "y = [] \<or> \<not> isspace (last y) \<Longrightarrow> rstrip y = y"
proof -
  assume "y = [] \<or> \<not> isspace (last y)"
  then have "dropWhile isspace (rev y) = rev y"
    by (auto simp: dropWhile_eq_self_iff hd_rev)
  then show ?thesis by (simp add: rstrip_def)
qed

lemma split_ws_Nil_iff: "split_ws s = [] \<longleftrightarrow> (\<forall>c\<in>set s. isspace c)"
proof -
  have "split_ws s = [] \<longleftrightarrow> dropWhile isspace s = []"
    by (subst split_ws.simps) (simp split: list.splits del: dropWhile_eq_Nil_conv)
  then show ?thesis by (simp add: dropWhile_eq_Nil_conv)
qed

lemma split_ws_last:
  "split_ws s \<noteq> [] \<Longrightarrow>
     (\<exists>pre. rstrip s = pre @ last (split_ws s) \<and> (pre = [] \<or> isspace (last pre))) \<and>
     last (split_ws s) \<noteq> [] \<and> (\<forall>c\<in>set (last (split_ws s)). \<not> isspace c)"
proof (induction s rule: split_ws.induct)
  case (1 s)
  from "1.prems" obtain c cs where d: "dropWhile isspace s = c # cs"
    by (subst (asm) split_ws.simps) (auto split: list.splits)
  define w where "w = c # takeWhile (\<lambda>d. \<not> isspace d) cs"
  define r where "r = dropWhile (\<lambda>d. \<not> isspace d) cs"
  define ws0 where "ws0 = takeWhile isspace s"
  have sw: "split_ws s = w # split_ws r"
    by (subst split_ws.simps) (simp add: d w_def r_def)
  have "s = ws0 @ dropWhile isspace s" by (simp add: ws0_def)
  then have s: "s = ws0 @ w @ r" by (simp add: d w_def r_def)
  have c: "\<not> isspace c" using hd_dropWhile [of isspace s] d by simp
  have wfree: "\<forall>x\<in>set w. \<not> isspace x"
    using c by (auto simp: w_def dest: set_takeWhileD)
  have wlast: "\<not> isspace (last w)" using wfree by (simp add: w_def)
  have ws0: "ws0 = [] \<or> isspace (last ws0)"
  proof (cases "ws0 = []")
    case False
    then have "last ws0 \<in> set ws0" by simp
    then show ?thesis unfolding ws0_def by (auto dest: set_takeWhileD)
  qed simp
  show ?case
  proof (cases "split_ws r = []")
    case True
    then have "\<forall>c\<in>set r. isspace c" by (simp add: split_ws_Nil_iff)
    then have "rstrip s = rstrip (ws0 @ w)"
      using rstrip_append_spaces [of r "ws0 @ w"] s by simp
    also have "\<dots> = ws0 @ w" using wlast by (intro rstrip_id) (simp add: w_def)
    finally have "rstrip s = ws0 @ w" .
    moreover have "last (split_ws s) = w" using True sw by simp
    moreover have "w \<noteq> []" by (simp add: w_def)
    ultimately show ?thesis using ws0 wfree by blast
  next
    case False
    from "1.IH" [OF d, folded r_def, OF False] obtain pre where
      pre: "rstrip r = pre @ last (split_ws r)" "pre = [] \<or> isspace (last pre)"
      and tok: "last (split_ws r) \<noteq> []" "\<forall>c\<in>set (last (split_ws r)). \<not> isspace c"
      by blast
    from pre tok have rne: "rstrip r \<noteq> []" by simp
    then have "rstrip s = (ws0 @ w) @ rstrip r"
      using rstrip_append_keep [of r "ws0 @ w"] s by simp
    then have eq: "rstrip s = (ws0 @ w @ pre) @ last (split_ws r)" using pre by simp
    have "r \<noteq> []" using rne by (auto simp: rstrip_def)
    then have "\<not> \<not> isspace (hd r)" unfolding r_def by (rule hd_dropWhile)
    then have hr: "isspace (hd (rstrip r))" using rne by (simp add: rstrip_hd)
    have "pre \<noteq> []"
    proof
      assume "pre = []"
      with pre have "hd (rstrip r) = hd (last (split_ws r))" by simp
      with hr tok show False by (metis hd_in_set)
    qed
    with pre have "isspace (last (ws0 @ w @ pre))" by simp
    moreover have "last (split_ws s) = last (split_ws r)" using False sw by simp
    ultimately show ?thesis using eq tok by metis
  qed
qed

lemma abbreviations_plain:
  "\<forall>a\<in>set abbreviations. a \<noteq> [] \<and> (\<forall>c\<in>set a. \<not> isspace c)"
  by code_simp

lemma endswith_trailing_token:
  assumes "a \<in> set abbreviations" "split_ws s \<noteq> []"
  shows "endswith (rstrip s) a \<longleftrightarrow> suffix a (last (split_ws s))"
proof -
  from split_ws_last [OF assms(2)] obtain pre where
    pre: "rstrip s = pre @ last (split_ws s)" "pre = [] \<or> isspace (last pre)" by blast
  from assms(1) abbreviations_plain have a: "a \<noteq> []" "\<forall>c\<in>set a. \<not> isspace c" by blast+
  show ?thesis
  proof
    assume "endswith (rstrip s) a"
    then have "suffix a (pre @ last (split_ws s))" by (simp add: endswith_def pre)
    then have "suffix a (last (split_ws s)) \<or>
               (\<exists>a'. a = a' @ last (split_ws s) \<and> suffix a' pre)"
      by (simp only: suffix_append)
    then show "suffix a (last (split_ws s))"
    proof (elim disjE exE conjE)
      fix a'
      assume eq: "a = a' @ last (split_ws s)" and suf: "suffix a' pre"
      show ?thesis
      proof (cases "a' = []")
        case True
        with eq show ?thesis by simp
      next
        case False
        from suf obtain u where u: "pre = u @ a'" unfolding suffix_def by blast
        with False have "last pre = last a'" "pre \<noteq> []" by simp_all
        with pre(2) have "isspace (last a')" by simp
        moreover have "last a' \<in> set a" using False eq by simp
        ultimately show ?thesis using a(2) by blast
      qed
    qed
  next
    assume "suffix a (last (split_ws s))"
    then show "endswith (rstrip s) a" by (simp add: endswith_def pre suffix_appendI)
  qed
qed

lemma abbreviation_test:
  "(split_ws s \<noteq> [] \<and> list_ex (\<lambda>abbrev. endswith (rstrip s) abbrev) abbreviations)
     \<longleftrightarrow> ends_with_abbreviation s"
  unfolding ends_with_abbreviation_def list_ex_iff
  using endswith_trailing_token [of _ s] by blast

lemma starts_lowercase_test:
  "(strip t \<noteq> [] \<and> islower (strip t ! 0)) \<longleftrightarrow> starts_lowercase t"
  by (cases "strip t") (simp_all add: starts_lowercase_def)

lemma merge_abbreviation_eq:
  assumes "i + 1 < length sentences"
  shows "merge_abbreviation sentences i s =
           Inr (if ends_with_abbreviation s \<and> starts_lowercase (sentences ! (i + 1))
                then (s @ '' '' @ strip (sentences ! (i + 1)), i + 1) else (s, i))"
proof -
  have g: "getitem sentences (i + 1) = Inr (sentences ! (i + 1))"
    using assms by (simp add: getitem_def)
  have h: "strip t \<noteq> [] \<Longrightarrow> getitem (strip t) 0 = Inr (strip t ! 0)" for t
    by (simp add: getitem_def)
  show ?thesis
  proof (cases "ends_with_abbreviation s")
    case False
    then have "\<not> (split_ws s \<noteq> [] \<and>
                 list_ex (\<lambda>abbrev. endswith (rstrip s) abbrev) abbreviations)"
      by (simp add: abbreviation_test)
    with False show ?thesis by (auto simp add: merge_abbreviation_def)
  next
    case True
    then have c: "split_ws s \<noteq> [] \<and>
                 list_ex (\<lambda>abbrev. endswith (rstrip s) abbrev) abbreviations"
      by (simp add: abbreviation_test)
    show ?thesis
    proof (cases "strip (sentences ! (i + 1)) = []")
      case e: True
      then have "\<not> starts_lowercase (sentences ! (i + 1))"
        by (simp add: starts_lowercase_def)
      with c e g show ?thesis by (simp add: merge_abbreviation_def)
    next
      case ne: False
      have "starts_lowercase (sentences ! (i + 1))
              \<longleftrightarrow> islower (strip (sentences ! (i + 1)) ! 0)"
        using ne starts_lowercase_test [of "sentences ! (i + 1)"] by simp
      with c ne g h [OF ne] True show ?thesis
        by (simp add: merge_abbreviation_def)
    qed
  qed
qed

lemma sentences_loop_merge_pass:
  "sentences_loop sentences i acc = Inr (acc @ merge_pass (drop i sentences))"
proof (induction sentences i acc rule: sentences_loop.induct)
  case (1 sentences i acc)
  show ?case
  proof (cases "i < length sentences")
    case False
    then show ?thesis by (simp add: sentences_loop.simps)
  next
    case True
    then have g: "getitem sentences i = Inr (sentences ! i)" by (simp add: getitem_def)
    define s where "s = sentences ! i"
    define step where "step = (if int i < int (length sentences) - 1
                       then merge_abbreviation sentences i (sentences ! i)
                       else Inr (sentences ! i, i))"
    have unfold: "sentences_loop sentences i acc =
                    sentences_loop sentences (j + 1) (acc @ [strip c])"
      if "step = Inr (c, j)" for c j
      using True g that [unfolded step_def]
      by (subst sentences_loop.simps) simp
    have ih: "sentences_loop sentences (j + 1) (acc @ [strip c])
                = Inr ((acc @ [strip c]) @ merge_pass (drop (j + 1) sentences))"
      if "step = Inr (c, j)" for c j
      using "1.IH" [OF True g that [unfolded step_def] refl] .
    have d: "drop i sentences = s # drop (i + 1) sentences"
      using True by (simp add: s_def Cons_nth_drop_Suc)
    show ?thesis
    proof (cases "i + 1 < length sentences")
      case False
      then have "step = Inr (s, i)" by (simp add: step_def s_def)
      from unfold [OF this] ih [OF this] False d show ?thesis by simp
    next
      case next_exists: True
      define t where "t = sentences ! (i + 1)"
      have d2: "drop i sentences = s # t # drop (i + 2) sentences"
        using next_exists d by (simp add: t_def Cons_nth_drop_Suc [symmetric])
      show ?thesis
      proof (cases "ends_with_abbreviation s \<and> starts_lowercase t")
        case True
        then have "step = Inr (s @ '' '' @ strip t, i + 1)"
          using next_exists merge_abbreviation_eq [OF next_exists, of s]
          by (simp add: step_def s_def t_def)
        from unfold [OF this] ih [OF this] True d2 show ?thesis by simp
      next
        case False
        then have "step = Inr (s, i)"
          using next_exists merge_abbreviation_eq [OF next_exists, of s]
          by (auto simp: step_def s_def t_def)
        from unfold [OF this] ih [OF this] False d2 d show ?thesis by auto
      qed
    qed
  qed
qed

section \<open>The chunk assembler and the parts of its chunks\<close>

lemma join_sp_snoc: "join_sp (xs @ [s]) = (if xs = [] then s else join_sp xs @ '' '' @ s)"
  by (induction xs rule: join_sp.induct) simp_all

lemma join_sp_Nil_iff: "\<forall>x\<in>set xs. x \<noteq> [] \<Longrightarrow> join_sp xs = [] \<longleftrightarrow> xs = []"
  by (induction xs rule: join_sp.induct) simp_all

lemma join_sp_trimmed: "xs \<noteq> [] \<Longrightarrow> \<forall>x\<in>set xs. trimmed x \<Longrightarrow> trimmed (join_sp xs)"
proof (induction xs rule: join_sp.induct)
  case (3 s t rest)
  then have "trimmed (join_sp (t # rest))" "trimmed s" by simp_all
  then show ?case by (simp add: trimmed_def)
qed simp_all

lemma length_join_sp:
  "xs \<noteq> [] \<Longrightarrow> length (join_sp xs) + 1 = sum_list (map length xs) + length xs"
  by (induction xs rule: join_sp.induct) simp_all

lemma split_ws_trimmed: "w \<in> set (split_ws s) \<Longrightarrow> trimmed w"
proof (induction s rule: split_ws.induct)
  case (1 s)
  show ?case
  proof (cases "dropWhile isspace s")
    case Nil
    with "1.prems" show ?thesis by (subst (asm) split_ws.simps) simp
  next
    case (Cons c cs)
    have c: "\<not> isspace c" using hd_dropWhile [of isspace s] Cons by simp
    from "1.prems" Cons have "w = c # takeWhile (\<lambda>d. \<not> isspace d) cs
        \<or> w \<in> set (split_ws (dropWhile (\<lambda>d. \<not> isspace d) cs))"
      by (subst (asm) split_ws.simps) simp
    then show ?thesis
    proof
      assume w: "w = c # takeWhile (\<lambda>d. \<not> isspace d) cs"
      have "\<forall>x\<in>set w. \<not> isspace x" using c by (auto simp: w dest: set_takeWhileD)
      moreover have "w \<noteq> []" by (simp add: w)
      ultimately show ?thesis by (simp add: trimmed_def)
    next
      assume "w \<in> set (split_ws (dropWhile (\<lambda>d. \<not> isspace d) cs))"
      then show ?thesis using "1.IH" [OF Cons] by simp
    qed
  qed
qed

lemma split_ws_empty [simp]: "split_ws [] = []"
  by (subst split_ws.simps) simp

lemma fitting_prefix: "prefix (fitting limit ps chars) ps"
  by (induction ps arbitrary: chars) simp_all

lemma fitting_sum:
  "int (sum_list (map length (fitting limit ps chars))) + chars \<le> max limit chars"
proof (induction ps arbitrary: chars)
  case Nil
  show ?case by simp
next
  case (Cons p ps)
  show ?case
  proof (cases "chars + int (length p) \<le> limit")
    case True
    with Cons [of "chars + int (length p)"] show ?thesis by simp
  next
    case False
    then show ?thesis by simp
  qed
qed

lemma join_sp_merge_last:
  "join_sp (xs @ [a, b]) = join_sp (xs @ [a @ '' '' @ b])"
proof -
  have "join_sp ((xs @ [a]) @ [b]) = join_sp (xs @ [a]) @ '' '' @ b"
    by (simp only: join_sp_snoc) simp
  then show ?thesis by (simp add: join_sp_snoc)
qed

lemma overlap_loop_join:
  "\<forall>p\<in>set ps. p \<noteq> [] \<Longrightarrow>
   overlap_loop limit ps acc chars
     = join_sp (rev (fitting limit ps chars) @ (if acc = [] then [] else [acc]))"
proof (induction ps arbitrary: acc chars)
  case Nil
  show ?case by simp
next
  case (Cons p ps)
  show ?case
  proof (cases "chars + int (length p) \<le> limit")
    case False
    then show ?thesis by simp
  next
    case True
    from Cons.prems have p: "p \<noteq> []" and ps: "\<forall>p\<in>set ps. p \<noteq> []" by simp_all
    show ?thesis
    proof (cases "acc = []")
      case e: True
      with True p Cons.IH [OF ps, of p "chars + int (length p)"] show ?thesis by simp
    next
      case ne: False
      with True p Cons.IH [OF ps, of "p @ '' '' @ acc" "chars + int (length p)"]
      show ?thesis using join_sp_merge_last [of "rev (fitting limit ps (chars + int (length p)))" p acc]
        by simp
    qed
  qed
qed

lemma trimmed_nonempty: "trimmed s \<Longrightarrow> s \<noteq> []"
  by (simp add: trimmed_def)

lemma render_Nil_iff:
  "\<forall>s\<in>set grp. s \<noteq> [] \<Longrightarrow> (grp = [] \<longrightarrow> seed = []) \<Longrightarrow>
   render (seed, grp) = [] \<longleftrightarrow> grp = []"
  by (auto simp: render_def join_sp_Nil_iff)

lemma render_trimmed:
  assumes "grp \<noteq> []" "\<forall>s\<in>set grp. trimmed s" "seed = [] \<or> trimmed seed"
  shows "trimmed (render (seed, grp))"
proof -
  have j: "trimmed (join_sp grp)" using assms(1,2) by (rule join_sp_trimmed)
  show ?thesis
  proof (cases "seed = []")
    case True
    with j show ?thesis by (simp add: render_def)
  next
    case False
    with assms(3) have "trimmed seed" by simp
    with j False show ?thesis by (simp add: render_def trimmed_def)
  qed
qed

lemma render_snoc: "grp \<noteq> [] \<Longrightarrow> render (seed, grp @ [s]) = render (seed, grp) @ '' '' @ s"
  by (simp add: render_def join_sp_snoc)

lemma render_single: "render (ov, [s]) = (if ov \<noteq> [] then ov @ '' '' @ s else s)"
  by (simp add: render_def)

lemma pieces_nonempty:
  "\<forall>s\<in>set grp. trimmed s \<Longrightarrow> \<forall>p\<in>set (split_ws seed @ grp). trimmed p"
  by (auto dest: split_ws_trimmed)

lemma overlap_entries_suffix: "suffix (overlap_entries self pt) (split_ws (fst pt) @ snd pt)"
proof (cases "0 < chunk_overlap self")
  case True
  have "prefix (fitting (chunk_overlap self) (rev (split_ws (fst pt) @ snd pt)) 0)
               (rev (split_ws (fst pt) @ snd pt))"
    by (rule fitting_prefix)
  then show ?thesis using True by (simp add: overlap_entries_def suffix_to_prefix)
next
  case False
  then show ?thesis by (simp add: overlap_entries_def)
qed

lemma overlap_entries_sum:
  "int (sum_list (map length (overlap_entries self pt))) \<le> max 0 (chunk_overlap self)"
proof (cases "0 < chunk_overlap self")
  case True
  have "sum_list (map length (rev (fitting (chunk_overlap self) (rev (split_ws (fst pt) @ snd pt)) 0)))
        = sum_list (map length (fitting (chunk_overlap self) (rev (split_ws (fst pt) @ snd pt)) 0))"
    by (simp add: rev_map [symmetric] sum_list_rev)
  then show ?thesis
    using True fitting_sum [of "chunk_overlap self" "rev (split_ws (fst pt) @ snd pt)" 0]
    by (simp add: overlap_entries_def)
next
  case False
  then show ?thesis by (simp add: overlap_entries_def)
qed

lemma next_seed_join:
  assumes "\<forall>s\<in>set grp. trimmed s"
  shows "next_seed self (seed, grp) = join_sp (overlap_entries self (seed, grp))"
proof (cases "0 < chunk_overlap self")
  case True
  have "\<forall>p\<in>set (rev (split_ws seed @ grp)). p \<noteq> []"
    using pieces_nonempty [OF assms, of seed] by (auto dest: trimmed_nonempty)
  from overlap_loop_join [OF this, of "chunk_overlap self" "[]" 0] True
  show ?thesis by (simp add: next_seed_def overlap_entries_def)
next
  case False
  then show ?thesis by (simp add: next_seed_def overlap_entries_def)
qed

lemma next_seed_trimmed:
  assumes "\<forall>s\<in>set grp. trimmed s"
  shows "next_seed self (seed, grp) = [] \<or> trimmed (next_seed self (seed, grp))"
proof (cases "overlap_entries self (seed, grp) = []")
  case True
  then show ?thesis by (simp add: next_seed_join [OF assms])
next
  case False
  have "set (overlap_entries self (seed, grp)) \<subseteq> set (split_ws seed @ grp)"
    using overlap_entries_suffix [of self "(seed, grp)"] set_mono_suffix by fastforce
  then have "\<forall>x\<in>set (overlap_entries self (seed, grp)). trimmed x"
    using pieces_nonempty [OF assms, of seed] by blast
  with False have "trimmed (join_sp (overlap_entries self (seed, grp)))"
    by (rule join_sp_trimmed)
  then show ?thesis by (simp add: next_seed_join [OF assms])
qed

lemma chunk_step_parts:
  assumes "trimmed s" "\<forall>x\<in>set grp. trimmed x" "seed = [] \<or> trimmed seed"
          "grp = [] \<longrightarrow> seed = []"
  shows "chunk_step self s (chunks, render (seed, grp), split_ws seed @ grp) =
           (if grp \<noteq> [] \<and> chunk_size self < int (length (render (seed, grp)) + 1 + length s)
            then (chunks @ [render (seed, grp)],
                  render (next_seed self (seed, grp), [s]),
                  split_ws (next_seed self (seed, grp)) @ [s])
            else (chunks, render (seed, grp @ [s]), split_ws seed @ (grp @ [s])))"
proof (cases "grp = []")
  case True
  with assms(4) have "seed = []" by simp
  with True show ?thesis by (simp add: chunk_step_def render_def)
next
  case False
  have ne: "render (seed, grp) \<noteq> []"
    using False assms(2,4) render_Nil_iff [of grp seed] by (auto dest: trimmed_nonempty)
  have st: "strip (render (seed, grp)) = render (seed, grp)"
    using render_trimmed [OF False assms(2,3)] by (rule strip_id)
  show ?thesis
  proof (cases "chunk_size self < int (length (render (seed, grp)) + 1 + length s)")
    case big: True
    show ?thesis
    proof (cases "0 < chunk_overlap self")
      case True
      then have ns: "overlap_loop (chunk_overlap self) (rev (split_ws seed @ grp)) [] 0
                 = next_seed self (seed, grp)"
        by (simp add: next_seed_def)
      show ?thesis using big False ne st True
        by (simp add: chunk_step_def Let_def ns render_single del: rev_append)
    next
      case no: False
      then have "next_seed self (seed, grp) = []" by (simp add: next_seed_def)
      then show ?thesis using big False ne st no
        by (simp add: chunk_step_def Let_def render_single)
    qed
  next
    case small: False
    then show ?thesis using False ne
      by (simp add: chunk_step_def Let_def render_snoc)
  qed
qed

lemma chunk_loop_parts:
  assumes "\<forall>s\<in>set ss. trimmed s" "\<forall>x\<in>set grp. trimmed x" "seed = [] \<or> trimmed seed"
          "grp = [] \<longrightarrow> seed = []"
  shows "(case chunk_loop self ss (chunks, render (seed, grp), split_ws seed @ grp) of
            (chunks', current_chunk, current_sentences) \<Rightarrow>
              if current_chunk \<noteq> [] then chunks' @ [strip current_chunk] else chunks')
         = chunks @ map render (group_loop self ss seed grp)"
  using assms
proof (induction ss arbitrary: chunks seed grp)
  case Nil
  show ?case
  proof (cases "grp = []")
    case True
    with Nil.prems have "seed = []" by simp
    with True show ?thesis by (simp add: render_def)
  next
    case False
    have "render (seed, grp) \<noteq> []"
      using False Nil.prems render_Nil_iff [of grp seed] by (auto dest: trimmed_nonempty)
    moreover have "strip (render (seed, grp)) = render (seed, grp)"
      using render_trimmed [OF False Nil.prems(2,3)] by (rule strip_id)
    ultimately show ?thesis using False by simp
  qed
next
  case (Cons s ss)
  from Cons.prems have s: "trimmed s" and ss: "\<forall>s\<in>set ss. trimmed s" by simp_all
  note step = chunk_step_parts [OF s Cons.prems(2,3,4), of self chunks]
  show ?case
  proof (cases "grp \<noteq> [] \<and> chunk_size self < int (length (render (seed, grp)) + 1 + length s)")
    case True
    have "(case chunk_loop self ss (chunks @ [render (seed, grp)],
                  render (next_seed self (seed, grp), [s]),
                  split_ws (next_seed self (seed, grp)) @ [s]) of
            (chunks', current_chunk, current_sentences) \<Rightarrow>
              if current_chunk \<noteq> [] then chunks' @ [strip current_chunk] else chunks')
         = (chunks @ [render (seed, grp)])
             @ map render (group_loop self ss (next_seed self (seed, grp)) [s])"
      using ss s next_seed_trimmed [OF Cons.prems(2), of self seed]
      by (intro Cons.IH) simp_all
    moreover have "chunk_step self s (chunks, render (seed, grp), split_ws seed @ grp)
                     = (chunks @ [render (seed, grp)],
                        render (next_seed self (seed, grp), [s]),
                        split_ws (next_seed self (seed, grp)) @ [s])"
      unfolding step by (rule if_P) (rule True)
    moreover have "group_loop self (s # ss) seed grp
                     = (seed, grp) # group_loop self ss (next_seed self (seed, grp)) [s]"
      using True by simp
    ultimately show ?thesis by (simp only: chunk_loop.simps) simp
  next
    case False
    have "(case chunk_loop self ss (chunks, render (seed, grp @ [s]),
                  split_ws seed @ (grp @ [s])) of
            (chunks', current_chunk, current_sentences) \<Rightarrow>
              if current_chunk \<noteq> [] then chunks' @ [strip current_chunk] else chunks')
         = chunks @ map render (group_loop self ss seed (grp @ [s]))"
      using ss s Cons.prems(2,3) by (intro Cons.IH) simp_all
    moreover have "chunk_step self s (chunks, render (seed, grp), split_ws seed @ grp)
                     = (chunks, render (seed, grp @ [s]), split_ws seed @ (grp @ [s]))"
      unfolding step by (rule if_not_P) (rule False)
    moreover have "group_loop self (s # ss) seed grp = group_loop self ss seed (grp @ [s])"
      using False by auto
    ultimately show ?thesis by (simp only: chunk_loop.simps)
  qed
qed

lemma chunk_paragraph_parts:
  "chunk_paragraph tok self p = Inr (map render (paragraph_parts tok self p))"
proof (cases "int (length p) \<le> chunk_size self")
  case True
  then show ?thesis by (simp add: chunk_paragraph_def paragraph_parts_def render_def)
next
  case False
  obtain ss where ss: "split_into_sentences tok p = Inr ss" "\<forall>s\<in>set ss. trimmed s"
    using split_into_sentences_total by blast
  have "(case chunk_loop self ss ([], render ([], []), split_ws [] @ []) of
            (chunks', current_chunk, current_sentences) \<Rightarrow>
              if current_chunk \<noteq> [] then chunks' @ [strip current_chunk] else chunks')
         = [] @ map render (group_loop self ss [] [])"
    using ss(2) by (intro chunk_loop_parts) simp_all
  then show ?thesis using False ss(1)
    by (auto simp: chunk_paragraph_def paragraph_parts_def render_def split: prod.splits)
qed

lemma group_loop_bound:
  "int (length (render (seed, grp))) \<le> chunk_size self \<or> length grp \<le> 1 \<Longrightarrow>
   \<forall>pt\<in>set (group_loop self ss seed grp).
      int (length (render pt)) \<le> chunk_size self \<or> length (snd pt) = 1"
proof (induction ss arbitrary: seed grp)
  case Nil
  then show ?case by (cases grp) auto
next
  case (Cons s ss)
  show ?case
  proof (cases "grp \<noteq> [] \<and> chunk_size self < int (length (render (seed, grp)) + 1 + length s)")
    case True
    have "\<forall>pt\<in>set (group_loop self ss (next_seed self (seed, grp)) [s]).
            int (length (render pt)) \<le> chunk_size self \<or> length (snd pt) = 1"
      by (rule Cons.IH) simp
    moreover have "int (length (render (seed, grp))) \<le> chunk_size self \<or> length grp = 1"
      using Cons.prems True by (cases grp) auto
    ultimately show ?thesis using True by simp
  next
    case False
    have "int (length (render (seed, grp @ [s]))) \<le> chunk_size self \<or> length (grp @ [s]) \<le> 1"
    proof (cases "grp = []")
      case True
      then show ?thesis by simp
    next
      case ne: False
      with False show ?thesis by (simp add: render_snoc)
    qed
    then have "\<forall>pt\<in>set (group_loop self ss seed (grp @ [s])).
            int (length (render pt)) \<le> chunk_size self \<or> length (snd pt) = 1"
      by (rule Cons.IH)
    moreover have "group_loop self (s # ss) seed grp = group_loop self ss seed (grp @ [s])"
      using False by auto
    ultimately show ?thesis by (simp only:)
  qed
qed

lemma group_loop_concat: "concat (map snd (group_loop self ss seed grp)) = grp @ ss"
  by (induction ss arbitrary: seed grp) auto

lemma group_loop_nonempty: "pt \<in> set (group_loop self ss seed grp) \<Longrightarrow> snd pt \<noteq> []"
  by (induction ss arbitrary: seed grp) (auto split: if_splits)

lemma group_loop_trimmed:
  assumes "\<forall>x\<in>set ss. trimmed x" "\<forall>x\<in>set grp. trimmed x"
          "pt \<in> set (group_loop self ss seed grp)"
  shows "\<forall>x\<in>set (snd pt). trimmed x"
proof -
  have "set (snd pt) \<subseteq> set (concat (map snd (group_loop self ss seed grp)))"
    using assms(3) by auto
  then have "set (snd pt) \<subseteq> set grp \<union> set ss" by (simp add: group_loop_concat)
  with assms(1,2) show ?thesis by blast
qed

lemma group_loop_hd: "group_loop self ss seed grp = pt # rest \<Longrightarrow> fst pt = seed"
  by (induction ss arbitrary: grp) (auto split: if_splits)

lemma group_loop_chain:
  "Suc k < length (group_loop self ss seed grp) \<Longrightarrow>
   fst (group_loop self ss seed grp ! Suc k) = next_seed self (group_loop self ss seed grp ! k)"
proof (induction ss arbitrary: seed grp k)
  case Nil
  then show ?case by (simp split: if_splits)
next
  case (Cons s ss)
  show ?case
  proof (cases "grp \<noteq> [] \<and> chunk_size self < int (length (render (seed, grp)) + 1 + length s)")
    case True
    define gl where "gl = group_loop self ss (next_seed self (seed, grp)) [s]"
    have eq: "group_loop self (s # ss) seed grp = (seed, grp) # gl"
      using True by (simp add: gl_def)
    show ?thesis
    proof (cases k)
      case 0
      from Cons.prems eq obtain pt rest where g: "gl = pt # rest" by (cases gl) auto
      then have "fst pt = next_seed self (seed, grp)"
        unfolding gl_def by (rule group_loop_hd)
      with 0 eq g show ?thesis by simp
    next
      case (Suc k')
      with Cons.prems eq have "Suc k' < length gl" by simp
      then have "fst (gl ! Suc k') = next_seed self (gl ! k')"
        unfolding gl_def by (rule Cons.IH)
      with Suc eq show ?thesis by simp
    qed
  next
    case False
    then have eq: "group_loop self (s # ss) seed grp = group_loop self ss seed (grp @ [s])"
      by auto
    from Cons.prems show ?thesis unfolding eq by (rule Cons.IH)
  qed
qed

lemma remove_overlap_render: "remove_overlap pt (render pt) = join_sp (snd pt)"
  by (simp add: remove_overlap_def render_def)

lemma paragraph_parts_slow:
  assumes "\<not> int (length p) \<le> chunk_size self"
  shows "\<exists>ss. split_into_sentences tok p = Inr ss \<and> (\<forall>s\<in>set ss. trimmed s) \<and>
              paragraph_parts tok self p = group_loop self ss [] []"
proof -
  obtain ss where ss: "split_into_sentences tok p = Inr ss" "\<forall>s\<in>set ss. trimmed s"
    using split_into_sentences_total by blast
  then show ?thesis using assms by (simp add: paragraph_parts_def)
qed


section \<open>Fast path, totality and paragraph independence\<close>

text \<open>
  C6: a paragraph whose length is at most \<^verbatim>\<open>chunk_size\<close> is returned as the single chunk
  \<^verbatim>\<open>[paragraph]\<close>, unchanged. The result is the same for every base tokenizer, so no
  sentence segmentation takes part in it.
\<close>

theorem chunk_paragraph_fast_path:
  "int (length paragraph) \<le> chunk_size self \<Longrightarrow>
   chunk_paragraph sent_tokenize self paragraph = Inr [paragraph]"
  by (simp add: chunk_paragraph_def)

theorem chunk_paragraph_fast_path_witness:
  "int (length ''A short paragraph of text.'')
     \<le> chunk_size \<lparr>chunk_size = 1000, chunk_overlap = 100\<rparr> \<and>
   chunk_paragraph punct_tokenize \<lparr>chunk_size = 1000, chunk_overlap = 100\<rparr>
     ''A short paragraph of text.'' = Inr [''A short paragraph of text.'']"
  using chunk_paragraph_fast_path
          [of "''A short paragraph of text.''" "\<lparr>chunk_size = 1000, chunk_overlap = 100\<rparr>"
              punct_tokenize]
  by simp

text \<open>
  C8: \<^verbatim>\<open>split_text\<close> has no error branch: for every input string it returns a chunk list,
  and no index access of the sentence loop is out of range. For the empty string and for
  every string of whitespace only the chunk list is empty.
\<close>

theorem split_text_total:
  "(\<exists>chunks. split_text sent_tokenize self text = Inr chunks) \<and>
   ((\<forall>c\<in>set text. isspace c) \<longrightarrow> split_text sent_tokenize self text = Inr [])"
  by (simp add: split_text_def split_text_loop_concat split_by_paragraphs_blank)

theorem split_text_total_witness:
  "split_text punct_tokenize \<lparr>chunk_size = 1000, chunk_overlap = 100\<rparr>
     [CHR '' '', CHR 0x0A, CHR 0x09, CHR 0x0A, CHR '' ''] = Inr []"
  using split_text_total
          [of punct_tokenize "\<lparr>chunk_size = 1000, chunk_overlap = 100\<rparr>"
              "[CHR '' '', CHR 0x0A, CHR 0x09, CHR 0x0A, CHR '' '']"]
  by (simp add: isspace_def whitespace_def)

text \<open>
  C10: \<^verbatim>\<open>split_text\<close> is the concatenation, in paragraph order, of \<^verbatim>\<open>_chunk_paragraph\<close>
  applied to each paragraph of \<^verbatim>\<open>_split_by_paragraphs\<close> on its own. The chunks of a
  paragraph depend on that paragraph alone, so no chunk spans two paragraphs and no
  overlap passes from one paragraph to the next.
\<close>

theorem split_text_concat:
  "split_text sent_tokenize self text =
     Inr (concat (map (\<lambda>p. projr (chunk_paragraph sent_tokenize self p))
                      (split_by_paragraphs text))) \<and>
   (\<forall>p\<in>set (split_by_paragraphs text).
      chunk_paragraph sent_tokenize self p = Inr (projr (chunk_paragraph sent_tokenize self p)))"
proof
  show "split_text sent_tokenize self text =
     Inr (concat (map (\<lambda>p. projr (chunk_paragraph sent_tokenize self p))
                      (split_by_paragraphs text)))"
    by (simp add: split_text_def split_text_loop_concat)
  show "\<forall>p\<in>set (split_by_paragraphs text).
      chunk_paragraph sent_tokenize self p = Inr (projr (chunk_paragraph sent_tokenize self p))"
  proof
    fix p
    obtain chunks where "chunk_paragraph sent_tokenize self p = Inr chunks"
      using chunk_paragraph_total by blast
    then show "chunk_paragraph sent_tokenize self p
                 = Inr (projr (chunk_paragraph sent_tokenize self p))"
      by simp
  qed
qed

theorem split_text_concat_witness:
  "split_text punct_tokenize \<lparr>chunk_size = 30, chunk_overlap = 10\<rparr>
      ''The road was empty. We ran. The night was very cold.\<newline>\<newline>A second paragraph, short one.''
    = Inr [''The road was empty. We ran.'', ''We ran. The night was very cold.'',
           ''A second paragraph, short one.'']"
proof -
  have "concat (map (\<lambda>p. projr (chunk_paragraph punct_tokenize \<lparr>chunk_size = 30, chunk_overlap = 10\<rparr> p))
                      (split_by_paragraphs ''The road was empty. We ran. The night was very cold.\<newline>\<newline>A second paragraph, short one.''))
     = [''The road was empty. We ran.'', ''We ran. The night was very cold.'',
           ''A second paragraph, short one.'']"
    by code_simp
  then show ?thesis
    using split_text_concat [of punct_tokenize "\<lparr>chunk_size = 30, chunk_overlap = 10\<rparr>"
      "''The road was empty. We ran. The night was very cold.\<newline>\<newline>A second paragraph, short one.''"]
    by simp
qed

section \<open>Paragraph filtering and re-splitting\<close>

text \<open>
  C7, as the code has it: the candidates are the pieces of the blank-line split of the
  trimmed text; each is trimmed, the candidates whose trimmed length is greater than 20
  are kept, in order, and whitespace-normalised; a candidate of trimmed length 20 or less
  is discarded. The threshold test of the code is \<^verbatim>\<open>len(para) > 20\<close>.
\<close>

theorem split_by_paragraphs_filter:
  "split_by_paragraphs text =
     map sub_ws (filter (\<lambda>para. 20 < length para) (map strip (re_split (strip text))))"
  by (simp add: split_by_paragraphs_def paragraphs_loop_filter)

theorem split_by_paragraphs_filter_witness:
  "split_by_paragraphs ''Chapter One: Origins\<newline>\<newline>It began on a cold   morning\<newline>in March.\<newline> \<newline>The end.''
     = [''It began on a cold morning in March.'']"
  unfolding split_by_paragraphs_filter [of "''Chapter One: Origins\<newline>\<newline>It began on a cold   morning\<newline>in March.\<newline> \<newline>The end.''"]
  by code_simp

text \<open>
  C7 as stated fails at trimmed length 20: the only candidate of the text below has
  trimmed length 20, which is not below 20, and the output is empty.
\<close>

theorem split_by_paragraphs_threshold_counterexample:
  "re_split (strip ''Chapter One: Origins'') = [''Chapter One: Origins''] \<and>
   length (strip ''Chapter One: Origins'') = 20 \<and>
   split_by_paragraphs ''Chapter One: Origins'' = []"
  by code_simp

text \<open>
  C9, as the code has it: joining the returned paragraphs with blank lines and splitting
  again returns the paragraphs that are longer than 20 characters, in order. Splitting is
  therefore idempotent on every text none of whose returned paragraphs has 20 characters
  or fewer; the length test precedes the whitespace normalisation, so a returned
  paragraph can be that short.
\<close>

theorem split_by_paragraphs_resplit:
  "split_by_paragraphs (join_blank (split_by_paragraphs text))
     = filter (\<lambda>p. 20 < length p) (split_by_paragraphs text)"
  using split_by_paragraphs_normal by (intro split_by_paragraphs_join_blank) blast

theorem split_by_paragraphs_resplit_witness:
  "split_by_paragraphs (join_blank (split_by_paragraphs
      ''Name:           John Smith\<newline>\<newline>\<newline>A first   paragraph of text.\<newline> \<newline>Another paragraph\<newline>on two lines.''))
     = [''A first paragraph of text.'', ''Another paragraph on two lines.'']"
  unfolding split_by_paragraphs_resplit
  by code_simp

text \<open>
  C9 as stated fails: the paragraph below has 26 characters, its normalised form has 16,
  and splitting the normalised form again returns nothing.
\<close>

theorem split_by_paragraphs_idempotent_counterexample:
  "split_by_paragraphs ''Name:           John Smith'' = [''Name: John Smith''] \<and>
   split_by_paragraphs (join_blank (split_by_paragraphs ''Name:           John Smith'')) = []"
  by code_simp

section \<open>The abbreviation merge rule\<close>

text \<open>
  C5, as the code has it: the post-processing pass over the base tokenization merges a
  sentence with the following one exactly when a next sentence exists, a known
  abbreviation is a suffix of the current sentence's trailing token, and the first
  character of the trimmed next sentence is lowercase. The merged sentence is the two
  joined by one space, the scan resumes after the absorbed sentence, and the final
  sentence is never merged. The test of the code is
  \<^verbatim>\<open>current_sentence.rstrip().endswith(abbrev)\<close>, a suffix test, not an equality of tokens.
\<close>

theorem sentences_loop_merge_rule:
  "sentences_loop sentences 0 [] = Inr (merge_pass sentences) \<and>
   split_into_sentences sent_tokenize text
     = Inr (filter (\<lambda>s. s \<noteq> []) (merge_pass (sent_tokenize text)))"
  by (simp add: split_into_sentences_def sentences_loop_merge_pass)

theorem sentences_loop_merge_rule_witness:
  "sentences_loop [''We met Dr.'', ''smith there.'', ''He left.''] 0 []
     = Inr [''We met Dr. smith there.'', ''He left.'']"
proof -
  have e: "merge_pass [''We met Dr.'', ''smith there.'', ''He left.'']
             = [''We met Dr. smith there.'', ''He left.'']"
    by code_simp
  show ?thesis
    using sentences_loop_merge_rule
            [of "[''We met Dr.'', ''smith there.'', ''He left.'']" punct_tokenize "[]"]
    unfolding e by (elim conjE)
qed

text \<open>
  C5 as stated fails when the trailing token only ends with an abbreviation: the trailing
  token \<^verbatim>\<open>animal.\<close> is not a known abbreviation, it ends with \<^verbatim>\<open>al.\<close>, and the sentence is
  merged with its lowercase successor.
\<close>

theorem merge_rule_token_counterexample:
  "last (split_ws ''It was an animal.'') = ''animal.'' \<and>
   ''animal.'' \<notin> set abbreviations \<and>
   sentences_loop [''It was an animal.'', ''it ran.''] 0 [] = Inr [''It was an animal. it ran.'']"
  by code_simp

section \<open>Chunk length, overlap and coverage\<close>

text \<open>
  C1, as the code has it: every chunk of a paragraph has at most \<^verbatim>\<open>chunk_size\<close> characters,
  except a chunk that consists of the overlap carried over from the previous chunk
  (possibly none) followed by exactly one sentence. The content placed into a fresh
  accumulator, overlap and triggering sentence, is never compared with \<^verbatim>\<open>chunk_size\<close>.
\<close>

theorem chunk_length_bound:
  "chunk_paragraph sent_tokenize self paragraph
     = Inr (map render (paragraph_parts sent_tokenize self paragraph)) \<and>
   (\<forall>pt\<in>set (paragraph_parts sent_tokenize self paragraph).
      int (length (render pt)) \<le> chunk_size self \<or> length (snd pt) = 1)"
proof
  show "chunk_paragraph sent_tokenize self paragraph
     = Inr (map render (paragraph_parts sent_tokenize self paragraph))"
    by (rule chunk_paragraph_parts)
  show "\<forall>pt\<in>set (paragraph_parts sent_tokenize self paragraph).
      int (length (render pt)) \<le> chunk_size self \<or> length (snd pt) = 1"
  proof (cases "int (length paragraph) \<le> chunk_size self")
    case True
    then show ?thesis by (simp add: paragraph_parts_def)
  next
    case False
    then obtain ss where "paragraph_parts sent_tokenize self paragraph = group_loop self ss [] []"
      using paragraph_parts_slow by blast
    then show ?thesis using group_loop_bound [of "[]" "[]" self ss] by simp
  qed
qed

theorem chunk_length_bound_witness:
  "chunk_paragraph punct_tokenize \<lparr>chunk_size = 30, chunk_overlap = 8\<rparr>
     ''It rained all day. We stayed in. Nobody came.''
     = Inr [''It rained all day.'', ''We stayed in. Nobody came.'']"
proof -
  have e: "map render (paragraph_parts punct_tokenize \<lparr>chunk_size = 30, chunk_overlap = 8\<rparr>
             ''It rained all day. We stayed in. Nobody came.'')
           = [''It rained all day.'', ''We stayed in. Nobody came.'']"
    by code_simp
  show ?thesis
    using chunk_length_bound [of punct_tokenize "\<lparr>chunk_size = 30, chunk_overlap = 8\<rparr>"
                                 "''It rained all day. We stayed in. Nobody came.''"]
    unfolding e by simp
qed

text \<open>
  C1 as stated fails: with \<^verbatim>\<open>chunk_size\<close> 30 and \<^verbatim>\<open>chunk_overlap\<close> 10 the second chunk below has
  32 characters and consists of two sentences, the overlap and the triggering sentence.
\<close>

theorem chunk_length_counterexample:
  "chunk_paragraph punct_tokenize \<lparr>chunk_size = 30, chunk_overlap = 10\<rparr>
     ''The road was empty. We ran. The night was very cold.''
     = Inr [''The road was empty. We ran.'', ''We ran. The night was very cold.''] \<and>
   split_into_sentences punct_tokenize ''We ran. The night was very cold.''
     = Inr [''We ran.'', ''The night was very cold.''] \<and>
   length ''We ran. The night was very cold.'' = 32"
  by code_simp

text \<open>
  C2, as the code has it: for consecutive chunks \<open>k\<close> and \<open>k + 1\<close>, the overlap carried into
  chunk \<open>k + 1\<close> is its leading text and is the single-space join of a trailing run of the
  entries of the accumulator list of chunk \<open>k\<close>; the lengths of these entries sum to at
  most \<^verbatim>\<open>chunk_overlap\<close> (to 0 when \<^verbatim>\<open>chunk_overlap\<close> is not positive), the joining spaces
  are not counted, and the text is longer than that sum by the number of entries less
  one. When chunk \<open>k\<close> carries no overlap itself, the entries are its trailing sentences.
\<close>

theorem overlap_bound:
  assumes "Suc k < length (paragraph_parts sent_tokenize self paragraph)"
  shows "chunk_paragraph sent_tokenize self paragraph
           = Inr (map render (paragraph_parts sent_tokenize self paragraph)) \<and>
         (let pt = paragraph_parts sent_tokenize self paragraph ! k;
              pt' = paragraph_parts sent_tokenize self paragraph ! Suc k;
              ov = overlap_entries self pt
          in fst pt' = join_sp ov \<and>
             prefix (fst pt') (render pt') \<and>
             suffix ov (split_ws (fst pt) @ snd pt) \<and>
             (fst pt = [] \<longrightarrow> suffix ov (snd pt)) \<and>
             int (sum_list (map length ov)) \<le> max 0 (chunk_overlap self) \<and>
             (ov \<noteq> [] \<longrightarrow> length (fst pt') + 1 = sum_list (map length ov) + length ov))"
proof
  show "chunk_paragraph sent_tokenize self paragraph
           = Inr (map render (paragraph_parts sent_tokenize self paragraph))"
    by (rule chunk_paragraph_parts)
  define parts where "parts = paragraph_parts sent_tokenize self paragraph"
  define pt where "pt = parts ! k"
  define pt' where "pt' = parts ! Suc k"
  define ov where "ov = overlap_entries self pt"
  have slow: "\<not> int (length paragraph) \<le> chunk_size self"
    using assms by (auto simp: paragraph_parts_def)
  then obtain ss where ss: "\<forall>s\<in>set ss. trimmed s" "parts = group_loop self ss [] []"
    unfolding parts_def using paragraph_parts_slow by blast
  have "pt \<in> set parts" using assms by (simp add: pt_def parts_def)
  then have tr: "\<forall>x\<in>set (snd pt). trimmed x"
    unfolding ss(2) using ss(1) by (intro group_loop_trimmed [of ss "[]" pt self "[]"]) simp_all
  have "fst pt' = next_seed self pt"
    unfolding pt'_def pt_def ss(2)
    using assms [folded parts_def, unfolded ss(2)] by (rule group_loop_chain)
  also have "\<dots> = join_sp ov"
    using next_seed_join [OF tr, of self "fst pt"] by (simp add: ov_def)
  finally have seed: "fst pt' = join_sp ov" .
  have pre: "prefix (fst pt') (render pt')" by (simp add: render_def)
  have suf: "suffix ov (split_ws (fst pt) @ snd pt)"
    unfolding ov_def by (rule overlap_entries_suffix)
  then have suf0: "fst pt = [] \<longrightarrow> suffix ov (snd pt)" by auto
  have sum: "int (sum_list (map length ov)) \<le> max 0 (chunk_overlap self)"
    unfolding ov_def by (rule overlap_entries_sum)
  have len: "ov \<noteq> [] \<longrightarrow> length (fst pt') + 1 = sum_list (map length ov) + length ov"
    using length_join_sp [of ov] seed by simp
  from seed pre suf suf0 sum len
  show "let pt = paragraph_parts sent_tokenize self paragraph ! k;
              pt' = paragraph_parts sent_tokenize self paragraph ! Suc k;
              ov = overlap_entries self pt
          in fst pt' = join_sp ov \<and>
             prefix (fst pt') (render pt') \<and>
             suffix ov (split_ws (fst pt) @ snd pt) \<and>
             (fst pt = [] \<longrightarrow> suffix ov (snd pt)) \<and>
             int (sum_list (map length ov)) \<le> max 0 (chunk_overlap self) \<and>
             (ov \<noteq> [] \<longrightarrow> length (fst pt') + 1 = sum_list (map length ov) + length ov)"
    unfolding Let_def parts_def [symmetric] pt_def [symmetric] pt'_def [symmetric]
      ov_def [symmetric]
    by blast
qed

theorem overlap_bound_witness:
  "fst (paragraph_parts punct_tokenize \<lparr>chunk_size = 20, chunk_overlap = 12\<rparr>
          ''Nobody was there. We ran. Stop. Nothing moved.'' ! Suc 1) = ''We ran. Stop.''"
proof -
  have len: "Suc 1 < length (paragraph_parts punct_tokenize \<lparr>chunk_size = 20, chunk_overlap = 12\<rparr>
          ''Nobody was there. We ran. Stop. Nothing moved.'')"
    by code_simp
  have e: "join_sp (overlap_entries \<lparr>chunk_size = 20, chunk_overlap = 12\<rparr>
             (paragraph_parts punct_tokenize \<lparr>chunk_size = 20, chunk_overlap = 12\<rparr>
                ''Nobody was there. We ran. Stop. Nothing moved.'' ! 1)) = ''We ran. Stop.''"
    by code_simp
  from overlap_bound [OF len]
  have "fst (paragraph_parts punct_tokenize \<lparr>chunk_size = 20, chunk_overlap = 12\<rparr>
          ''Nobody was there. We ran. Stop. Nothing moved.'' ! Suc 1)
        = join_sp (overlap_entries \<lparr>chunk_size = 20, chunk_overlap = 12\<rparr>
             (paragraph_parts punct_tokenize \<lparr>chunk_size = 20, chunk_overlap = 12\<rparr>
                ''Nobody was there. We ran. Stop. Nothing moved.'' ! 1))"
    unfolding Let_def by (elim conjE)
  then show ?thesis unfolding e .
qed

text \<open>
  C2 as stated fails: with \<^verbatim>\<open>chunk_overlap\<close> 12 the overlap carried into the third chunk is
  two whole sentences of 7 and 5 characters, 13 characters with the joining space.
\<close>

theorem overlap_length_counterexample:
  "chunk_paragraph punct_tokenize \<lparr>chunk_size = 20, chunk_overlap = 12\<rparr>
     ''Nobody was there. We ran. Stop. Nothing moved.''
     = Inr [''Nobody was there.'', ''We ran. Stop.'', ''We ran. Stop. Nothing moved.''] \<and>
   overlap_loop 12 (rev [''We ran.'', ''Stop.'']) [] 0 = ''We ran. Stop.'' \<and>
   length ''We ran. Stop.'' = 13"
  by code_simp

text \<open>
  C3: the overlap walk is meant to run over the sentences of the sealed chunk. After an
  overlap has been carried over, the code stores \<^verbatim>\<open>overlap_text.split()\<close>, the words of the
  overlap, in \<^verbatim>\<open>current_sentences\<close>. At the input below the second chunk is sealed with the
  list \<^verbatim>\<open>["We", "ran", "home.", "It rained."]\<close>; the walk takes \<^verbatim>\<open>"It rained."\<close> and the
  word \<^verbatim>\<open>"home."\<close>, and the third chunk starts with a fragment of the first sentence. A
  walk over the sentences \<^verbatim>\<open>["We ran home.", "It rained."]\<close> takes \<^verbatim>\<open>"It rained."\<close> alone.
\<close>

theorem overlap_walks_words_example:
  "chunk_paragraph punct_tokenize \<lparr>chunk_size = 20, chunk_overlap = 15\<rparr>
     ''We ran home. It rained. Go.''
     = Inr [''We ran home.'', ''We ran home. It rained.'', ''home. It rained. Go.''] \<and>
   chunk_loop \<lparr>chunk_size = 20, chunk_overlap = 15\<rparr> [''We ran home.'', ''It rained.'']
     ([], [], [])
     = ([''We ran home.''], ''We ran home. It rained.'', [''We'', ''ran'', ''home.'', ''It rained.'']) \<and>
   overlap_loop 15 (rev [''We'', ''ran'', ''home.'', ''It rained.'']) [] 0 = ''home. It rained.'' \<and>
   overlap_loop 15 (rev [''We ran home.'', ''It rained.'']) [] 0 = ''It rained.''"
  by code_simp

text \<open>
  C4: every chunk of a paragraph is its carried-over overlap followed by a non-empty
  group of sentences; removing the overlap leaves the group joined by single spaces, and
  the groups, concatenated in chunk order, are the sentence sequence of the paragraph.
  On the fast path the paragraph itself is the only group.
\<close>

theorem chunk_coverage:
  "chunk_paragraph sent_tokenize self paragraph
     = Inr (map render (paragraph_parts sent_tokenize self paragraph)) \<and>
   (\<forall>pt\<in>set (paragraph_parts sent_tokenize self paragraph).
      snd pt \<noteq> [] \<and> remove_overlap pt (render pt) = join_sp (snd pt)) \<and>
   (if int (length paragraph) \<le> chunk_size self
    then concat (map snd (paragraph_parts sent_tokenize self paragraph)) = [paragraph]
    else split_into_sentences sent_tokenize paragraph
           = Inr (concat (map snd (paragraph_parts sent_tokenize self paragraph))))"
proof (intro conjI)
  show "chunk_paragraph sent_tokenize self paragraph
     = Inr (map render (paragraph_parts sent_tokenize self paragraph))"
    by (rule chunk_paragraph_parts)
  show "\<forall>pt\<in>set (paragraph_parts sent_tokenize self paragraph).
      snd pt \<noteq> [] \<and> remove_overlap pt (render pt) = join_sp (snd pt)"
  proof (cases "int (length paragraph) \<le> chunk_size self")
    case True
    then show ?thesis by (simp add: paragraph_parts_def remove_overlap_render)
  next
    case False
    then obtain ss where "paragraph_parts sent_tokenize self paragraph = group_loop self ss [] []"
      using paragraph_parts_slow by blast
    then show ?thesis using group_loop_nonempty by (simp add: remove_overlap_render)
  qed
  show "if int (length paragraph) \<le> chunk_size self
    then concat (map snd (paragraph_parts sent_tokenize self paragraph)) = [paragraph]
    else split_into_sentences sent_tokenize paragraph
           = Inr (concat (map snd (paragraph_parts sent_tokenize self paragraph)))"
  proof (cases "int (length paragraph) \<le> chunk_size self")
    case True
    then show ?thesis by (simp add: paragraph_parts_def)
  next
    case False
    then obtain ss where "split_into_sentences sent_tokenize paragraph = Inr ss"
      "paragraph_parts sent_tokenize self paragraph = group_loop self ss [] []"
      using paragraph_parts_slow by blast
    then show ?thesis using False by (simp add: group_loop_concat)
  qed
qed

theorem chunk_coverage_witness:
  "split_into_sentences punct_tokenize ''He came in. He sat down. He said nothing at all.''
     = Inr [''He came in.'', ''He sat down.'', ''He said nothing at all.'']"
proof -
  have c: "\<not> int (length ''He came in. He sat down. He said nothing at all.'')
             \<le> chunk_size \<lparr>chunk_size = 25, chunk_overlap = 12\<rparr>"
    by simp
  have e: "concat (map snd (paragraph_parts punct_tokenize \<lparr>chunk_size = 25, chunk_overlap = 12\<rparr>
             ''He came in. He sat down. He said nothing at all.''))
           = [''He came in.'', ''He sat down.'', ''He said nothing at all.'']"
    by code_simp
  show ?thesis
    using chunk_coverage [of punct_tokenize "\<lparr>chunk_size = 25, chunk_overlap = 12\<rparr>"
                             "''He came in. He sat down. He said nothing at all.''"] c
    unfolding e by simp
qed


end
